theory Spec2Isabelle
  imports Main
begin

section \<open>Strings and the selector attribute extractor\<close>

text \<open>
  A JavaScript string is a sequence of UTF-16 code units; the regular expression of
  \<^verbatim>\<open>extractAttributesFromSelector\<close> has no \<^verbatim>\<open>u\<close> flag and so works on
  code units. A string is therefore a list of code units, each a natural number;
  \<open>js\<close> turns an ASCII literal into one.
\<close>

type_synonym jsstring = "nat list"

definition js :: "string \<Rightarrow> jsstring" where
  "js s = map of_char s"

text \<open>The classes of the pattern \<^verbatim>\<open>/\[\s*([a-zA-Z_:][-a-zA-Z0-9_:.]*)/g\<close>.\<close>

definition is_space :: "nat \<Rightarrow> bool" where
  \<comment> \<open>\<^verbatim>\<open>\s\<close>: the white space and line terminator code units of ECMAScript\<close>
  "is_space c \<longleftrightarrow>
     c \<in> {9, 10, 11, 12, 13, 32, 160, 5760, 8232, 8233, 8239, 8287, 12288, 65279}
     \<or> (8192 \<le> c \<and> c \<le> 8202)"

definition is_alpha :: "nat \<Rightarrow> bool" where
  "is_alpha c \<longleftrightarrow> (97 \<le> c \<and> c \<le> 122) \<or> (65 \<le> c \<and> c \<le> 90)"

definition name_start :: "nat \<Rightarrow> bool" where
  \<comment> \<open>\<^verbatim>\<open>[a-zA-Z_:]\<close>\<close>
  "name_start c \<longleftrightarrow> is_alpha c \<or> c = 95 \<or> c = 58"

definition name_char :: "nat \<Rightarrow> bool" where
  \<comment> \<open>\<^verbatim>\<open>[-a-zA-Z0-9_:.]\<close>\<close>
  "name_char c \<longleftrightarrow> c = 45 \<or> is_alpha c \<or> (48 \<le> c \<and> c \<le> 57) \<or> c = 95 \<or> c = 58 \<or> c = 46"

text \<open>
  One attempt of the pattern right after an opening bracket: white space is skipped
  greedily, then a name start and the longest run of name characters form group 1.
  Giving white space back cannot help (a name start is no white space), so the greedy
  reading is the only one. The result is the group and the text after the match.
\<close>

definition match_after_bracket :: "jsstring \<Rightarrow> (jsstring \<times> jsstring) option" where
  "match_after_bracket cs =
     (case dropWhile is_space cs of
        [] \<Rightarrow> None
      | d # ds \<Rightarrow>
          if name_start d then Some (d # takeWhile name_char ds, dropWhile name_char ds)
          else None)"

text \<open>
  The \<^verbatim>\<open>while ((match = attrPattern.exec(selector)) !== null)\<close> loop: \<^verbatim>\<open>exec\<close> finds
  the leftmost match at or after \<^verbatim>\<open>lastIndex\<close> and moves \<^verbatim>\<open>lastIndex\<close> to its
  end; the loop stops when there is none. \<open>exec_all\<close> lists group 1 of every iteration.
\<close>

function exec_all :: "jsstring \<Rightarrow> jsstring list" where
  "exec_all [] = []"
| "exec_all (c # cs) =
     (if c = 91 then
        (case match_after_bracket cs of
           None \<Rightarrow> exec_all cs
         | Some (name, rest) \<Rightarrow> name # exec_all rest)
      else exec_all cs)"
  by pat_completeness auto

lemma match_after_bracket_length:
  "match_after_bracket cs = Some (name, rest) \<Longrightarrow> length rest < Suc (length cs)"
proof -
  assume a: "match_after_bracket cs = Some (name, rest)"
  have l1: "length (dropWhile is_space cs) \<le> length cs"
    by (rule length_dropWhile_le)
  from a obtain d ds where d: "dropWhile is_space cs = d # ds" and r: "rest = dropWhile name_char ds"
    by (auto simp: match_after_bracket_def split: list.splits if_splits)
  have "length rest \<le> length ds" unfolding r by (rule length_dropWhile_le)
  moreover have "length ds < length cs" using l1 d by simp
  ultimately show ?thesis by simp
qed

termination exec_all
  by (relation "measure length") (auto dest: match_after_bracket_length)

text \<open>
  \<^verbatim>\<open>attrs.add(match[1])\<close> on a \<^verbatim>\<open>Set\<close> and \<^verbatim>\<open>Array.from(attrs)\<close>: a set keeps
  its elements in insertion order and ignores an element it already has.
\<close>

definition set_add :: "'a list \<Rightarrow> 'a \<Rightarrow> 'a list" where
  "set_add attrs x = (if x \<in> set attrs then attrs else attrs @ [x])"

definition extractAttributesFromSelector :: "jsstring \<Rightarrow> jsstring list" where
  "extractAttributesFromSelector selector = foldl set_add [] (exec_all selector)"

section \<open>The host tree\<close>

text \<open>
  The tree, its selector matching and its subtree query are the platform's, not this
  repository's. A node reference is modelled by the node as the tree holds it when the
  manager runs: its identity, its kind and its children. Which elements match a selector
  is the host's answer \<open>h selector id\<close>, a black box.
\<close>

datatype node_kind = Element | Text | Document | DocumentFragment

datatype dom = Node (nid: nat) (kind: node_kind) (childNodes: "dom list")

type_synonym host = "jsstring \<Rightarrow> nat \<Rightarrow> bool"

datatype exn = TypeError | UserFault

fun descendants :: "dom \<Rightarrow> dom list" where
  "descendants (Node i k cs) = concat (map (\<lambda>c. c # descendants c) cs)"


definition matches :: "host \<Rightarrow> dom \<Rightarrow> jsstring \<Rightarrow> exn + bool" where
  \<comment> \<open>\<^verbatim>\<open>el.matches(selector)\<close>: only an Element has the method\<close>
  "matches h n sel = (if kind n = Element then Inr (h sel (nid n)) else Inl TypeError)"

definition querySelectorAll :: "host \<Rightarrow> dom \<Rightarrow> jsstring \<Rightarrow> dom list" where
  \<comment> \<open>the element descendants (never the node itself) that match, in document order\<close>
  "querySelectorAll h root sel =
     filter (\<lambda>n. kind n = Element \<and> h sel (nid n)) (descendants root)"

datatype MutationRecordType = childList | attributes | characterData

record MutationRecord =
  type :: MutationRecordType
  target :: dom
  addedNodes :: "dom list"
  removedNodes :: "dom list"
  attributeName :: "jsstring option"

section \<open>Directives and the state the manager works on\<close>

text \<open>
  A directive object is the user's. Of its two optional hooks the model keeps whether
  the method is there (\<open>None\<close>: absent, the optional call \<^verbatim>\<open>?.()\<close> does nothing)
  and whether a call returns or throws. \<^verbatim>\<open>new directive(el)\<close> either throws or gives
  a new object: a directive constructor maps the element to \<open>None\<close> (it throws) or to
  the hooks of the object it builds. Hooks and constructors are taken not to touch the
  tree or the slots themselves.
\<close>

datatype outcome = Returns | Throws

record hooks =
  onChange :: "outcome option"
  onDetach :: "outcome option"

record dir_instance = hooks +
  ident :: nat

type_synonym DirectiveContructor = "nat \<Rightarrow> hooks option"

datatype event =
    New nat
  | Change nat nat MutationRecord
  | Detach nat nat

text \<open>
  The state: the slots \<^verbatim>\<open>element[symbol]\<close> (by element and symbol), the calls made
  to user code so far (\<open>New el\<close>: the constructor on element \<open>el\<close>; \<open>Change i el m\<close>
  and \<open>Detach i el\<close>: the hooks of object \<open>i\<close>), the next fresh object and symbol, and
  for each manager's \<^verbatim>\<open>MutationObserver\<close> the roots it observes with their
  \<^verbatim>\<open>attributeFilter\<close>.
\<close>

record world =
  slots :: "nat \<times> nat \<Rightarrow> dir_instance option"
  trace :: "event list"
  next_inst :: nat
  next_symbol :: nat
  observed :: "nat \<Rightarrow> nat \<Rightarrow> jsstring list option option"

text \<open>A call returns a value or throws; either way the state it reached stays.\<close>

datatype 'a result = Done 'a world | Raised exn world

fun world_of :: "'a result \<Rightarrow> world" where
  "world_of (Done a w) = w"
| "world_of (Raised e w) = w"

fun is_Done :: "'a result \<Rightarrow> bool" where
  "is_Done (Done a w) = True"
| "is_Done (Raised e w) = False"

section \<open>The directive manager\<close>

record DirectiveManager =
  symbol :: nat
  attrsToObserve :: "jsstring list"
  directive :: DirectiveContructor
  selector :: jsstring

definition new_DirectiveManager ::
  "DirectiveContructor \<Rightarrow> jsstring \<Rightarrow> world \<Rightarrow> DirectiveManager \<times> world" where
  \<comment> \<open>\<^verbatim>\<open>Symbol(directive.name)\<close> is a symbol no earlier call returned\<close>
  "new_DirectiveManager d sel w =
     (\<lparr>symbol = next_symbol w,
       attrsToObserve = extractAttributesFromSelector sel,
       directive = d,
       selector = sel\<rparr>,
      w\<lparr>next_symbol := Suc (next_symbol w)\<rparr>)"


definition attach :: "DirectiveManager \<Rightarrow> dom \<Rightarrow> world \<Rightarrow> bool result" where
  "attach m element w =
     (case slots w (nid element, symbol m) of
        Some i \<Rightarrow> Done False w
      | None \<Rightarrow>
          (let w1 = w\<lparr>trace := trace w @ [New (nid element)]\<rparr> in
           case directive m (nid element) of
             None \<Rightarrow> Raised UserFault w1
           | Some hk \<Rightarrow>
               Done True
                 (w1\<lparr>slots := (slots w1)((nid element, symbol m) \<mapsto>
                         \<lparr>onChange = onChange hk, onDetach = onDetach hk, ident = next_inst w1\<rparr>),
                      next_inst := Suc (next_inst w1)\<rparr>)))"

definition detach :: "DirectiveManager \<Rightarrow> dom \<Rightarrow> world \<Rightarrow> unit result" where
  "detach m el w =
     (case slots w (nid el, symbol m) of
        None \<Rightarrow> Done () w
      | Some i \<Rightarrow>
          (case onDetach i of
             None \<Rightarrow> Done () (w\<lparr>slots := (slots w)((nid el, symbol m) := None)\<rparr>)
           | Some Throws \<Rightarrow> Raised UserFault (w\<lparr>trace := trace w @ [Detach (ident i) (nid el)]\<rparr>)
           | Some Returns \<Rightarrow>
               Done () (w\<lparr>trace := trace w @ [Detach (ident i) (nid el)],
                          slots := (slots w)((nid el, symbol m) := None)\<rparr>)))"

definition update :: "DirectiveManager \<Rightarrow> dom \<Rightarrow> MutationRecord \<Rightarrow> world \<Rightarrow> unit result" where
  "update m el mutation w =
     (case attach m el w of
        Raised e w1 \<Rightarrow> Raised e w1
      | Done True w1 \<Rightarrow> Done () w1
      | Done False w1 \<Rightarrow>
          (case slots w1 (nid el, symbol m) of
             None \<Rightarrow> Raised TypeError w1
           | Some i \<Rightarrow>
               (case onChange i of
                  None \<Rightarrow> Done () w1
                | Some Throws \<Rightarrow>
                    Raised UserFault (w1\<lparr>trace := trace w1 @ [Change (ident i) (nid el) mutation]\<rparr>)
                | Some Returns \<Rightarrow>
                    Done () (w1\<lparr>trace := trace w1 @ [Change (ident i) (nid el) mutation]\<rparr>))))"

text \<open>The two \<^verbatim>\<open>for (let el of ...) this.#attach(el)\<close> and \<^verbatim>\<open>this.#detach(el)\<close> loops.\<close>

fun attach_each :: "DirectiveManager \<Rightarrow> dom list \<Rightarrow> world \<Rightarrow> unit result" where
  "attach_each m [] w = Done () w"
| "attach_each m (el # els) w =
     (case attach m el w of
        Raised e w1 \<Rightarrow> Raised e w1
      | Done b w1 \<Rightarrow> attach_each m els w1)"

fun detach_each :: "DirectiveManager \<Rightarrow> dom list \<Rightarrow> world \<Rightarrow> unit result" where
  "detach_each m [] w = Done () w"
| "detach_each m (el # els) w =
     (case detach m el w of
        Raised e w1 \<Rightarrow> Raised e w1
      | Done u w1 \<Rightarrow> detach_each m els w1)"

definition attachTo :: "DirectiveManager \<Rightarrow> host \<Rightarrow> dom \<Rightarrow> world \<Rightarrow> unit result" where
  "attachTo m h root w =
     (case (if kind root = Element then matches h root (selector m) else Inr False) of
        Inl e \<Rightarrow> Raised e w
      | Inr True \<Rightarrow>
          (case attach m root w of
             Raised e w1 \<Rightarrow> Raised e w1
           | Done b w1 \<Rightarrow> attach_each m (querySelectorAll h root (selector m)) w1)
      | Inr False \<Rightarrow> attach_each m (querySelectorAll h root (selector m)) w)"

definition detachFrom :: "DirectiveManager \<Rightarrow> host \<Rightarrow> dom \<Rightarrow> world \<Rightarrow> unit result" where
  "detachFrom m h root w =
     (case detach_each m (querySelectorAll h root (selector m)) w of
        Raised e w1 \<Rightarrow> Raised e w1
      | Done u w1 \<Rightarrow>
          (case matches h root (selector m) of
             Inl e \<Rightarrow> Raised e w1
           | Inr True \<Rightarrow> detach m root w1
           | Inr False \<Rightarrow> Done () w1))"



text \<open>
  The callback of \<^verbatim>\<open>observer\<close> (the field \<^verbatim>\<open>mutationObserver\<close> holds a second
  observer with the same callback that nothing ever starts). \<open>for_added\<close> and
  \<open>for_removed\<close> are the loops over \<^verbatim>\<open>m.addedNodes\<close> and \<^verbatim>\<open>m.removedNodes\<close>,
  \<open>observer_record\<close> is the body of the loop over the batch.
\<close>

fun for_added :: "DirectiveManager \<Rightarrow> host \<Rightarrow> dom list \<Rightarrow> world \<Rightarrow> unit result" where
  "for_added m h [] w = Done () w"
| "for_added m h (node # nodes) w =
     (if kind node \<noteq> Element then for_added m h nodes w
      else (case attachTo m h node w of
              Raised e w1 \<Rightarrow> Raised e w1
            | Done u w1 \<Rightarrow> for_added m h nodes w1))"

fun for_removed :: "DirectiveManager \<Rightarrow> host \<Rightarrow> dom list \<Rightarrow> world \<Rightarrow> unit result" where
  "for_removed m h [] w = Done () w"
| "for_removed m h (node # nodes) w =
     (if kind node \<noteq> Element then for_removed m h nodes w
      else (case detachFrom m h node w of
              Raised e w1 \<Rightarrow> Raised e w1
            | Done u w1 \<Rightarrow> for_removed m h nodes w1))"

definition observer_record ::
  "DirectiveManager \<Rightarrow> host \<Rightarrow> MutationRecord \<Rightarrow> world \<Rightarrow> unit result" where
  "observer_record m h mu w =
     (case (if type mu = childList then
              (case for_added m h (addedNodes mu) w of
                 Raised e w1 \<Rightarrow> Raised e w1
               | Done u w1 \<Rightarrow> for_removed m h (removedNodes mu) w1)
            else Done () w) of
        Raised e w1 \<Rightarrow> Raised e w1
      | Done u w1 \<Rightarrow>
          (if type mu = attributes \<and> kind (target mu) = Element then
             (case matches h (target mu) (selector m) of
                Inl e \<Rightarrow> Raised e w1
              | Inr True \<Rightarrow> update m (target mu) mu w1
              | Inr False \<Rightarrow> detach m (target mu) w1)
           else Done () w1))"



section \<open>What the specification asks of the extractor\<close>










section \<open>The elementary steps of a manager\<close>

text \<open>
  Every operation of a manager changes the state only through \<^verbatim>\<open>#attach\<close> on an
  element that matches the selector, through \<^verbatim>\<open>#detach\<close>, by calling a hook (which
  adds to the trace) or by starting and stopping its observer. \<open>steps m h\<close> relates a
  state to the states any number of such steps of manager \<open>m\<close> lead to while the host
  answers \<open>h\<close>; the lemmas below place each operation in it.
\<close>

inductive prim :: "DirectiveManager \<Rightarrow> host \<Rightarrow> world \<Rightarrow> world \<Rightarrow> bool" for m h where
  prim_attach: "kind el = Element \<Longrightarrow> h (selector m) (nid el) \<Longrightarrow> prim m h w (world_of (attach m el w))"
| prim_detach: "prim m h w (world_of (detach m el w))"
| prim_trace: "prim m h w (w\<lparr>trace := t\<rparr>)"
| prim_observed: "prim m h w (w\<lparr>observed := f\<rparr>)"

definition steps :: "DirectiveManager \<Rightarrow> host \<Rightarrow> world \<Rightarrow> world \<Rightarrow> bool" where
  "steps m h = (prim m h)\<^sup>*\<^sup>*"

section \<open>Properties of a state\<close>




text \<open>The element a call to user code was made for.\<close>

fun event_node :: "event \<Rightarrow> nat" where
  "event_node (New el) = el"
| "event_node (Change i el mu) = el"
| "event_node (Detach i el) = el"

section \<open>The life of a registration\<close>





section \<open>Concrete inputs\<close>

text \<open>
  A state with nothing stored, a directive whose hooks are both there and return, a
  manager for the selector \<^verbatim>\<open>[open]\<close>, and one element.
\<close>

definition empty_world :: world where
  "empty_world =
     \<lparr>slots = (\<lambda>k. None), trace = [], next_inst = 0, next_symbol = 0,
      observed = (\<lambda>s. Map.empty)\<rparr>"

definition hooks_ok :: hooks where
  "hooks_ok = \<lparr>onChange = Some Returns, onDetach = Some Returns\<rparr>"

definition open_manager :: DirectiveManager where
  "open_manager = fst (new_DirectiveManager (\<lambda>el. Some hooks_ok) (js ''[open]'') empty_world)"

definition button :: dom where
  "button = Node 1 Element []"

definition attr_record :: "dom \<Rightarrow> MutationRecord" where
  "attr_record el =
     \<lparr>type = attributes, target = el, addedNodes = [], removedNodes = [],
      attributeName = Some (js ''open'')\<rparr>"

definition button_attached :: world where
  "button_attached = world_of (attach open_manager button empty_world)"


text \<open>An element with the button as its only child, and the state after an attach pass on it.\<close>

definition panel :: dom where
  "panel = Node 2 Element [button]"

definition panel_attached :: world where
  "panel_attached = world_of (attachTo open_manager (\<lambda>sel n. True) panel empty_world)"













section \<open>The private helpers \<^verbatim>\<open>#attach\<close> and \<^verbatim>\<open>#detach\<close>\<close>

lemma attach_absent:
  "slots w (nid el, symbol m) = None \<Longrightarrow> directive m (nid el) = Some hk \<Longrightarrow>
   attach m el w = Done True
     (w\<lparr>trace := trace w @ [New (nid el)],
        slots := (slots w)((nid el, symbol m) \<mapsto>
           \<lparr>onChange = onChange hk, onDetach = onDetach hk, ident = next_inst w\<rparr>),
        next_inst := Suc (next_inst w)\<rparr>)"
  by (simp add: attach_def)

lemma attach_present:
  "slots w (nid el, symbol m) = Some i \<Longrightarrow> attach m el w = Done False w"
  by (simp add: attach_def)

lemma detach_absent:
  "slots w (nid el, symbol m) = None \<Longrightarrow> detach m el w = Done () w"
  by (simp add: detach_def)

lemma open_manager_simps:
  "symbol open_manager = 0"
  "directive open_manager = (\<lambda>el. Some hooks_ok)"
  "selector open_manager = js ''[open]''"
  by (simp_all add: open_manager_def new_DirectiveManager_def empty_world_def)

lemma button_attached_eq:
  "button_attached =
     \<lparr>slots = (\<lambda>k. None)((1, 0) \<mapsto>
        \<lparr>onChange = Some Returns, onDetach = Some Returns, ident = 0\<rparr>),
      trace = [New 1], next_inst = 1, next_symbol = 0, observed = (\<lambda>s. Map.empty)\<rparr>"
  by (simp add: button_attached_def attach_def open_manager_simps empty_world_def button_def
      hooks_ok_def)


section \<open>The extractor's loop, position by position\<close>





lemma name_start_char: "name_start c \<Longrightarrow> name_char c"
  by (auto simp: name_start_def name_char_def)









section \<open>Each operation is a sequence of elementary steps\<close>



















section \<open>What an elementary step keeps\<close>

lemma attach_slots:
  "slots (world_of (attach m el w)) =
     (case slots w (nid el, symbol m) of
        Some i \<Rightarrow> slots w
      | None \<Rightarrow>
          (case directive m (nid el) of
             None \<Rightarrow> slots w
           | Some hk \<Rightarrow> (slots w)((nid el, symbol m) \<mapsto>
               \<lparr>onChange = onChange hk, onDetach = onDetach hk, ident = next_inst w\<rparr>)))"
  by (simp add: attach_def Let_def split: option.splits)


lemma attach_next_symbol: "next_symbol (world_of (attach m el w)) = next_symbol w"
  by (simp add: attach_def Let_def split: option.splits)

lemma detach_slots:
  "slots (world_of (detach m el w)) =
     (case slots w (nid el, symbol m) of
        None \<Rightarrow> slots w
      | Some i \<Rightarrow>
          if onDetach i = Some Throws then slots w
          else (slots w)((nid el, symbol m) := None))"
  by (simp add: detach_def split: option.splits outcome.splits)


lemma detach_next_symbol: "next_symbol (world_of (detach m el w)) = next_symbol w"
  by (simp add: detach_def split: option.splits outcome.splits)


lemma prim_next_symbol: "prim m h w w1 \<Longrightarrow> next_symbol w1 = next_symbol w"
  by (erule prim.cases) (simp_all add: attach_next_symbol detach_next_symbol)











lemma steps_next_symbol: "steps m h w w1 \<Longrightarrow> next_symbol w1 = next_symbol w"
  unfolding steps_def by (induction rule: rtranclp_induct) (simp_all add: prim_next_symbol)





section \<open>What the attach pass stores\<close>



lemma attach_keeps:
  "slots w k = Some i \<Longrightarrow> slots (world_of (attach m el w)) k = Some i"
  by (auto simp: attach_slots split: option.splits)

lemma attach_each_keeps:
  "slots w k = Some i \<Longrightarrow> slots (world_of (attach_each m els w)) k = Some i"
proof (induction els arbitrary: w)
  case Nil
  then show ?case by simp
next
  case (Cons el els)
  have k: "slots (world_of (attach m el w)) k = Some i" using Cons.prems by (rule attach_keeps)
  show ?case
  proof (cases "attach m el w")
    case (Done b w1)
    with k Cons.IH show ?thesis by simp
  next
    case (Raised e w1)
    with k show ?thesis by simp
  qed
qed



section \<open>The calls a loop of the manager makes\<close>

lemma attach_trace:
  "trace (world_of (attach m el w)) =
     trace w @ (case slots w (nid el, symbol m) of Some i \<Rightarrow> [] | None \<Rightarrow> [New (nid el)])"
  by (simp add: attach_def Let_def split: option.splits)

lemma detach_trace:
  "trace (world_of (detach m el w)) =
     trace w @ (case slots w (nid el, symbol m) of
                  None \<Rightarrow> []
                | Some i \<Rightarrow> if onDetach i = None then [] else [Detach (ident i) (nid el)])"
  by (simp add: detach_def split: option.splits outcome.splits)

lemma detach_Done_iff:
  "(\<exists>w1. detach m el w = Done () w1) \<longleftrightarrow>
   (\<forall>i. slots w (nid el, symbol m) = Some i \<longrightarrow> onDetach i \<noteq> Some Throws)"
  by (simp add: detach_def split: option.splits outcome.splits)

lemma detach_Done_slots:
  "detach m el w = Done u w1 \<Longrightarrow> slots w1 = (slots w)((nid el, symbol m) := None)"
  by (auto simp: detach_def split: option.splits outcome.splits)

lemma detach_shrinks:
  "slots (world_of (detach m el w)) k = Some i \<Longrightarrow> slots w k = Some i"
  by (simp add: detach_slots split: option.splits if_splits)

lemma attach_each_trace:
  "\<exists>evs. trace (world_of (attach_each m els w)) = trace w @ evs
     \<and> (\<forall>e\<in>set evs. \<exists>el\<in>set els. e = New (nid el))"
proof (induction els arbitrary: w)
  case Nil
  show ?case by simp
next
  case (Cons el els)
  obtain e0 where e0: "trace (world_of (attach m el w)) = trace w @ e0"
    "\<forall>e\<in>set e0. e = New (nid el)"
    by (simp add: attach_trace split: option.splits)
  show ?case
  proof (cases "attach m el w")
    case (Raised e w1)
    with e0 have "trace (world_of (attach_each m (el # els) w)) = trace w @ e0" by simp
    moreover have "\<forall>e\<in>set e0. \<exists>x\<in>set (el # els). e = New (nid x)" using e0(2) by simp
    ultimately show ?thesis by blast
  next
    case (Done b w1)
    from Cons.IH [of w1] obtain evs where evs: "trace (world_of (attach_each m els w1)) = trace w1 @ evs"
      "\<forall>e\<in>set evs. \<exists>x\<in>set els. e = New (nid x)" by blast
    have "trace (world_of (attach_each m (el # els) w)) = trace w @ (e0 @ evs)"
      using Done e0(1) evs(1) by simp
    moreover have "\<forall>e\<in>set (e0 @ evs). \<exists>x\<in>set (el # els). e = New (nid x)"
      using e0(2) evs(2) by auto
    ultimately show ?thesis by blast
  qed
qed

lemma detach_each_trace:
  "\<exists>evs. trace (world_of (detach_each m els w)) = trace w @ evs
     \<and> (\<forall>e\<in>set evs. \<exists>el\<in>set els. \<exists>i. slots w (nid el, symbol m) = Some i
            \<and> e = Detach (ident i) (nid el))"
proof (induction els arbitrary: w)
  case Nil
  show ?case by simp
next
  case (Cons el els)
  have "\<exists>e0. trace (world_of (detach m el w)) = trace w @ e0
    \<and> (\<forall>e\<in>set e0. \<exists>i. slots w (nid el, symbol m) = Some i \<and> e = Detach (ident i) (nid el))"
    by (cases "slots w (nid el, symbol m)") (simp_all add: detach_trace)
  then obtain e0 where e0: "trace (world_of (detach m el w)) = trace w @ e0"
    "\<forall>e\<in>set e0. \<exists>i. slots w (nid el, symbol m) = Some i \<and> e = Detach (ident i) (nid el)"
    by blast
  show ?case
  proof (cases "detach m el w")
    case (Raised e w1)
    with e0 have "trace (world_of (detach_each m (el # els) w)) = trace w @ e0" by simp
    moreover have "\<forall>e\<in>set e0. \<exists>x\<in>set (el # els). \<exists>i. slots w (nid x, symbol m) = Some i
        \<and> e = Detach (ident i) (nid x)" using e0(2) by simp
    ultimately show ?thesis by blast
  next
    case (Done b w1)
    from Cons.IH [of w1] obtain evs where evs:
      "trace (world_of (detach_each m els w1)) = trace w1 @ evs"
      "\<forall>e\<in>set evs. \<exists>x\<in>set els. \<exists>i. slots w1 (nid x, symbol m) = Some i
          \<and> e = Detach (ident i) (nid x)" by blast
    have sh: "\<And>k i. slots w1 k = Some i \<Longrightarrow> slots w k = Some i"
      using detach_shrinks [of m el w] Done by simp
    have "trace (world_of (detach_each m (el # els) w)) = trace w @ (e0 @ evs)"
      using Done e0(1) evs(1) by simp
    moreover have "\<forall>e\<in>set (e0 @ evs). \<exists>x\<in>set (el # els). \<exists>i.
        slots w (nid x, symbol m) = Some i \<and> e = Detach (ident i) (nid x)"
    proof
      fix e assume "e \<in> set (e0 @ evs)"
      then consider "e \<in> set e0" | "e \<in> set evs" by auto
      then show "\<exists>x\<in>set (el # els). \<exists>i. slots w (nid x, symbol m) = Some i
          \<and> e = Detach (ident i) (nid x)"
      proof cases
        case 1
        with e0(2) show ?thesis by simp
      next
        case 2
        with evs(2) obtain x i where x: "x \<in> set els" "slots w1 (nid x, symbol m) = Some i"
          "e = Detach (ident i) (nid x)" by blast
        from x(2) have "slots w (nid x, symbol m) = Some i" by (rule sh)
        with x(1,3) show ?thesis by (intro bexI [of _ x]) simp_all
      qed
    qed
    ultimately show ?thesis by blast
  qed
qed

lemma detach_each_shrinks:
  "slots (world_of (detach_each m els w)) k = Some i \<Longrightarrow> slots w k = Some i"
proof (induction els arbitrary: w)
  case Nil
  then show ?case by simp
next
  case (Cons el els)
  show ?case
  proof (cases "detach m el w")
    case (Raised e w1)
    with Cons.prems have "slots (world_of (detach m el w)) k = Some i" by simp
    then show ?thesis by (rule detach_shrinks)
  next
    case (Done u w1)
    with Cons.prems have "slots (world_of (detach_each m els w1)) k = Some i" by simp
    then have "slots w1 k = Some i" by (rule Cons.IH)
    with Done have "slots (world_of (detach m el w)) k = Some i" by simp
    then show ?thesis by (rule detach_shrinks)
  qed
qed

lemma detach_each_Done_erased:
  "detach_each m els w = Done u w1 \<Longrightarrow> el \<in> set els \<Longrightarrow> slots w1 (nid el, symbol m) = None"
proof (induction els arbitrary: w)
  case Nil
  then show ?case by simp
next
  case (Cons x els)
  from Cons.prems(1) obtain w0 where d: "detach m x w = Done () w0"
    and r: "detach_each m els w0 = Done u w1"
    by (cases "detach m x w") simp_all
  show ?case
  proof (cases "el \<in> set els")
    case True
    with r Cons.IH show ?thesis by blast
  next
    case False
    with Cons.prems(2) have "el = x" by simp
    then have n: "slots w0 (nid el, symbol m) = None" using detach_Done_slots [OF d] by simp
    show ?thesis
    proof (cases "slots w1 (nid el, symbol m)")
      case None
      then show ?thesis .
    next
      case (Some i)
      with r have "slots (world_of (detach_each m els w0)) (nid el, symbol m) = Some i" by simp
      then have "slots w0 (nid el, symbol m) = Some i" by (rule detach_each_shrinks)
      with n show ?thesis by simp
    qed
  qed
qed

section \<open>A pass run a second time\<close>

lemma attach_Done_present:
  "attach m el w = Done b w1 \<Longrightarrow> slots w1 (nid el, symbol m) \<noteq> None"
  by (auto simp: attach_def Let_def split: option.splits)

lemma attach_each_Done_present:
  "attach_each m els w = Done u w1 \<Longrightarrow> el \<in> set els \<Longrightarrow> slots w1 (nid el, symbol m) \<noteq> None"
proof (induction els arbitrary: w)
  case Nil
  then show ?case by simp
next
  case (Cons x els)
  from Cons.prems(1) obtain b w0 where d: "attach m x w = Done b w0"
    and r: "attach_each m els w0 = Done u w1"
    by (cases "attach m x w") simp_all
  show ?case
  proof (cases "el \<in> set els")
    case True
    with r Cons.IH show ?thesis by blast
  next
    case False
    with Cons.prems(2) have "el = x" by simp
    with d have "slots w0 (nid el, symbol m) \<noteq> None" by (simp add: attach_Done_present)
    then obtain i where "slots w0 (nid el, symbol m) = Some i" by blast
    then have "slots (world_of (attach_each m els w0)) (nid el, symbol m) = Some i"
      by (rule attach_each_keeps)
    with r show ?thesis by simp
  qed
qed

lemma attach_each_noop:
  "\<forall>el\<in>set els. slots w (nid el, symbol m) \<noteq> None \<Longrightarrow> attach_each m els w = Done () w"
  by (induction els) (auto simp: attach_def)

lemma detach_each_noop:
  "\<forall>el\<in>set els. slots w (nid el, symbol m) = None \<Longrightarrow> detach_each m els w = Done () w"
  by (induction els) (auto simp: detach_def)

lemma attachTo_again:
  assumes "attachTo m h root w = Done u w1"
  shows "attachTo m h root w1 = Done () w1"
proof -
  let ?q = "querySelectorAll h root (selector m)"
  show ?thesis
  proof (cases "kind root = Element \<and> h (selector m) (nid root)")
    case False
    then have t: "\<And>v. attachTo m h root v = attach_each m ?q v"
      by (auto simp: attachTo_def matches_def)
    with assms have "attach_each m ?q w = Done u w1" by simp
    then have "\<forall>el\<in>set ?q. slots w1 (nid el, symbol m) \<noteq> None"
      by (blast dest: attach_each_Done_present)
    then show ?thesis unfolding t by (rule attach_each_noop)
  next
    case True
    then have t: "\<And>v. attachTo m h root v = (case attach m root v of
        Raised e w1 \<Rightarrow> Raised e w1 | Done b w1 \<Rightarrow> attach_each m ?q w1)"
      by (simp add: attachTo_def matches_def)
    from assms obtain b w0 where a: "attach m root w = Done b w0"
      and r: "attach_each m ?q w0 = Done u w1"
      unfolding t by (cases "attach m root w") simp_all
    from a have "slots w0 (nid root, symbol m) \<noteq> None" by (rule attach_Done_present)
    then obtain i where "slots w0 (nid root, symbol m) = Some i" by blast
    then have "slots (world_of (attach_each m ?q w0)) (nid root, symbol m) = Some i"
      by (rule attach_each_keeps)
    with r have "slots w1 (nid root, symbol m) = Some i" by simp
    then have a1: "attach m root w1 = Done False w1" by (rule attach_present)
    from r have "\<forall>el\<in>set ?q. slots w1 (nid el, symbol m) \<noteq> None"
      by (blast dest: attach_each_Done_present)
    then have "attach_each m ?q w1 = Done () w1" by (rule attach_each_noop)
    with a1 show ?thesis unfolding t by simp
  qed
qed

lemma detachFrom_again:
  assumes "detachFrom m h root w = Done u w1"
  shows "detachFrom m h root w1 = Done () w1"
proof -
  let ?q = "querySelectorAll h root (selector m)"
  from assms obtain w0 where d: "detach_each m ?q w = Done () w0"
    and r: "(case matches h root (selector m) of
             Inl e \<Rightarrow> Raised e w0
           | Inr True \<Rightarrow> detach m root w0
           | Inr False \<Rightarrow> Done () w0) = Done u w1"
    unfolding detachFrom_def by (cases "detach_each m ?q w") simp_all
  from d have e0: "\<forall>el\<in>set ?q. slots w0 (nid el, symbol m) = None"
    by (blast dest: detach_each_Done_erased)
  from r have k: "kind root = Element"
    by (cases "kind root = Element") (simp_all add: matches_def)
  show ?thesis
  proof (cases "h (selector m) (nid root)")
    case False
    with r k have "w1 = w0" by (simp add: matches_def)
    with e0 have "detach_each m ?q w1 = Done () w1" by (simp add: detach_each_noop)
    with False k show ?thesis by (simp add: detachFrom_def matches_def)
  next
    case True
    with r k have dr: "detach m root w0 = Done u w1" by (simp add: matches_def)
    then have s1: "slots w1 = (slots w0)((nid root, symbol m) := None)"
      by (rule detach_Done_slots)
    with e0 have "\<forall>el\<in>set ?q. slots w1 (nid el, symbol m) = None" by simp
    then have "detach_each m ?q w1 = Done () w1" by (rule detach_each_noop)
    moreover have "detach m root w1 = Done () w1" using s1 by (simp add: detach_absent)
    ultimately show ?thesis using True k by (simp add: detachFrom_def matches_def)
  qed
qed

section \<open>The calls of a teardown pass, in order\<close>

lemma detach_each_other:
  "k \<notin> (\<lambda>el. (nid el, symbol m)) ` set els \<Longrightarrow>
   slots (world_of (detach_each m els w)) k = slots w k"
proof (induction els arbitrary: w)
  case Nil
  show ?case by simp
next
  case (Cons el els)
  from Cons.prems have k: "k \<noteq> (nid el, symbol m)"
    and r: "k \<notin> (\<lambda>el. (nid el, symbol m)) ` set els" by auto
  have d: "slots (world_of (detach m el w)) k = slots w k"
    using k by (simp add: detach_slots split: option.splits)
  show ?case
  proof (cases "detach m el w")
    case (Raised e w1)
    with d show ?thesis by simp
  next
    case (Done u w1)
    with d Cons.IH [OF r, of w1] show ?thesis by simp
  qed
qed

lemma detach_each_Done_events:
  "detach_each m els w = Done u w1 \<Longrightarrow> el \<in> set els \<Longrightarrow>
   slots w (nid el, symbol m) = Some i \<Longrightarrow> onDetach i \<noteq> None \<Longrightarrow>
   \<exists>pre post. trace w1 = trace w @ pre @ Detach (ident i) (nid el) # post"
proof (induction els arbitrary: w)
  case Nil
  then show ?case by simp
next
  case (Cons x els)
  from Cons.prems(1) obtain w0 where d: "detach m x w = Done () w0"
    and r: "detach_each m els w0 = Done u w1"
    by (cases "detach m x w") simp_all
  from detach_each_trace [of m els w0] r obtain evs where evs: "trace w1 = trace w0 @ evs"
    by auto
  have t0: "trace w0 = trace w @ (case slots w (nid x, symbol m) of
                  None \<Rightarrow> []
                | Some i \<Rightarrow> if onDetach i = None then [] else [Detach (ident i) (nid x)])"
    using detach_trace [of m x w] d by simp
  show ?case
  proof (cases "nid el = nid x")
    case True
    with Cons.prems(3,4) t0 have "trace w0 = trace w @ [Detach (ident i) (nid el)]" by simp
    with evs have "trace w1 = trace w @ [] @ Detach (ident i) (nid el) # evs" by simp
    then show ?thesis by blast
  next
    case False
    with Cons.prems(2) have el: "el \<in> set els" by auto
    have "slots w0 (nid el, symbol m) = Some i"
      using detach_Done_slots [OF d] False Cons.prems(3) by simp
    from Cons.IH [OF r el this Cons.prems(4)] obtain pre post where
      "trace w1 = trace w0 @ pre @ Detach (ident i) (nid el) # post" by blast
    then have "\<exists>e0. trace w1 = trace w @ (e0 @ pre) @ Detach (ident i) (nid el) # post"
      unfolding t0 by simp
    then show ?thesis by blast
  qed
qed

lemma detachFrom_trace:
  assumes "nid root \<notin> nid ` set (descendants root)"
  shows "\<exists>ds rs. trace (world_of (detachFrom m h root w)) = trace w @ ds @ rs
      \<and> (\<forall>e\<in>set ds. event_node e \<in> nid ` set (querySelectorAll h root (selector m))
            \<and> event_node e \<noteq> nid root)
      \<and> (\<forall>e\<in>set rs. event_node e = nid root)
      \<and> length rs \<le> 1
      \<and> (slots w (nid root, symbol m) = None \<longrightarrow> rs = [])
      \<and> (is_Done (detachFrom m h root w) \<longrightarrow>
           (\<forall>el\<in>set (querySelectorAll h root (selector m)). \<forall>i.
               slots w (nid el, symbol m) = Some i \<and> onDetach i \<noteq> None \<longrightarrow>
               Detach (ident i) (nid el) \<in> set ds)
         \<and> (\<forall>i. h (selector m) (nid root) \<and> slots w (nid root, symbol m) = Some i
               \<and> onDetach i \<noteq> None \<longrightarrow> rs = [Detach (ident i) (nid root)]))"
proof -
  let ?q = "querySelectorAll h root (selector m)"
  let ?r0 = "detach_each m ?q w"
  let ?w0 = "world_of ?r0"
  have qsub: "nid ` set ?q \<subseteq> nid ` set (descendants root)"
    by (auto simp: querySelectorAll_def)
  from detach_each_trace [of m ?q w] obtain ds where ds: "trace ?w0 = trace w @ ds"
    "\<forall>e\<in>set ds. \<exists>el\<in>set ?q. \<exists>i. slots w (nid el, symbol m) = Some i
        \<and> e = Detach (ident i) (nid el)" by blast
  have dsn: "\<forall>e\<in>set ds. event_node e \<in> nid ` set ?q \<and> event_node e \<noteq> nid root"
  proof
    fix e assume "e \<in> set ds"
    with ds(2) have "\<exists>el\<in>set ?q. \<exists>i. slots w (nid el, symbol m) = Some i
        \<and> e = Detach (ident i) (nid el)" by (rule bspec)
    then obtain el and i :: dir_instance
      where el: "el \<in> set ?q" "e = Detach (ident i) (nid el)" by auto
    from el(1) have a: "nid el \<in> nid ` set ?q" by (rule imageI)
    with qsub have "nid el \<in> nid ` set (descendants root)" by (rule subsetD)
    with assms have b: "nid el \<noteq> nid root" by (cases "nid el = nid root") simp_all
    have "event_node e = nid el" unfolding el(2) by simp
    with a b show "event_node e \<in> nid ` set ?q \<and> event_node e \<noteq> nid root" by simp
  qed
  have rootk: "(nid root, symbol m) \<notin> (\<lambda>el. (nid el, symbol m)) ` set ?q"
    using qsub assms by auto
  have s0: "slots ?w0 (nid root, symbol m) = slots w (nid root, symbol m)"
    using rootk by (rule detach_each_other)
  show ?thesis
  proof (cases ?r0)
    case (Raised e w0)
    then have t: "trace (world_of (detachFrom m h root w)) = trace w @ ds @ []"
      using ds(1) by (simp add: detachFrom_def)
    have "\<not> is_Done (detachFrom m h root w)"
      using Raised by (simp add: detachFrom_def)
    then have nd: "is_Done (detachFrom m h root w) \<longrightarrow>
           (\<forall>el\<in>set ?q. \<forall>i.
               slots w (nid el, symbol m) = Some i \<and> onDetach i \<noteq> None \<longrightarrow>
               Detach (ident i) (nid el) \<in> set ds)
         \<and> (\<forall>i. h (selector m) (nid root) \<and> slots w (nid root, symbol m) = Some i
               \<and> onDetach i \<noteq> None \<longrightarrow> [] = [Detach (ident i) (nid root)])" by simp
    show ?thesis
    proof (intro exI conjI)
      show "trace (world_of (detachFrom m h root w)) = trace w @ ds @ []" by fact
      show "\<forall>e\<in>set ds. event_node e \<in> nid ` set ?q \<and> event_node e \<noteq> nid root" by fact
      show "\<forall>e\<in>set []. event_node e = nid root" by simp
      show "length ([]::event list) \<le> 1" by simp
      show "slots w (nid root, symbol m) = None \<longrightarrow> [] = ([]::event list)" by simp
      show "is_Done (detachFrom m h root w) \<longrightarrow>
           (\<forall>el\<in>set ?q. \<forall>i.
               slots w (nid el, symbol m) = Some i \<and> onDetach i \<noteq> None \<longrightarrow>
               Detach (ident i) (nid el) \<in> set ds)
         \<and> (\<forall>i. h (selector m) (nid root) \<and> slots w (nid root, symbol m) = Some i
               \<and> onDetach i \<noteq> None \<longrightarrow> [] = [Detach (ident i) (nid root)])" by (rule nd)
    qed
  next
    case (Done u w0)
    then have w0: "?w0 = w0" by simp
    have full: "\<forall>el\<in>set ?q. \<forall>i. slots w (nid el, symbol m) = Some i \<and> onDetach i \<noteq> None
        \<longrightarrow> Detach (ident i) (nid el) \<in> set ds"
    proof (intro ballI allI impI)
      fix el i assume el: "el \<in> set ?q"
        and "slots w (nid el, symbol m) = Some i \<and> onDetach i \<noteq> None"
      then have "slots w (nid el, symbol m) = Some i" "onDetach i \<noteq> None" by simp_all
      from detach_each_Done_events [OF Done el this] obtain pre post where
        "trace w0 = trace w @ pre @ Detach (ident i) (nid el) # post" by blast
      with ds(1) w0 have "ds = pre @ Detach (ident i) (nid el) # post" by simp
      then show "Detach (ident i) (nid el) \<in> set ds" by simp
    qed
    show ?thesis
    proof (cases "kind root = Element \<and> h (selector m) (nid root)")
      case False
      then have "world_of (detachFrom m h root w) = w0"
        using Done by (auto simp: detachFrom_def matches_def)
      then have "trace (world_of (detachFrom m h root w)) = trace w @ ds @ []"
        using ds(1) w0 by simp
      then have t: "trace (world_of (detachFrom m h root w)) = trace w @ ds @ []" .
      have nh: "is_Done (detachFrom m h root w) \<longrightarrow> \<not> h (selector m) (nid root)"
        using False Done by (auto simp: detachFrom_def matches_def)
      show ?thesis
      proof (intro exI conjI)
        show "trace (world_of (detachFrom m h root w)) = trace w @ ds @ []" by fact
        show "\<forall>e\<in>set ds. event_node e \<in> nid ` set ?q \<and> event_node e \<noteq> nid root" by fact
        show "\<forall>e\<in>set []. event_node e = nid root" by simp
        show "length ([]::event list) \<le> 1" by simp
        show "slots w (nid root, symbol m) = None \<longrightarrow> [] = ([]::event list)" by simp
        show "is_Done (detachFrom m h root w) \<longrightarrow>
           (\<forall>el\<in>set ?q. \<forall>i.
               slots w (nid el, symbol m) = Some i \<and> onDetach i \<noteq> None \<longrightarrow>
               Detach (ident i) (nid el) \<in> set ds)
         \<and> (\<forall>i. h (selector m) (nid root) \<and> slots w (nid root, symbol m) = Some i
               \<and> onDetach i \<noteq> None \<longrightarrow> [] = [Detach (ident i) (nid root)])"
          using full nh by blast
      qed
    next
      case True
      then have df: "detachFrom m h root w = detach m root w0"
        using Done by (simp add: detachFrom_def matches_def)
      let ?rs = "case slots w (nid root, symbol m) of
                  None \<Rightarrow> []
                | Some i \<Rightarrow> if onDetach i = None then [] else [Detach (ident i) (nid root)]"
      have "trace (world_of (detach m root w0)) = trace w0 @ ?rs"
        using detach_trace [of m root w0] s0 w0 by simp
      then have t: "trace (world_of (detachFrom m h root w)) = trace w @ ds @ ?rs"
        using df ds(1) w0 by simp
      have r1: "\<forall>e\<in>set ?rs. event_node e = nid root"
        by (cases "slots w (nid root, symbol m)") simp_all
      have r2: "length ?rs \<le> 1"
        by (cases "slots w (nid root, symbol m)") simp_all
      have r3: "slots w (nid root, symbol m) = None \<longrightarrow> ?rs = []" by simp
      have r4: "\<forall>i. h (selector m) (nid root) \<and> slots w (nid root, symbol m) = Some i
               \<and> onDetach i \<noteq> None \<longrightarrow> ?rs = [Detach (ident i) (nid root)]" by simp
      show ?thesis
      proof (intro exI conjI)
        show "trace (world_of (detachFrom m h root w)) = trace w @ ds @ ?rs" by fact
        show "\<forall>e\<in>set ds. event_node e \<in> nid ` set ?q \<and> event_node e \<noteq> nid root" by fact
        show "\<forall>e\<in>set ?rs. event_node e = nid root" by fact
        show "length ?rs \<le> 1" by fact
        show "slots w (nid root, symbol m) = None \<longrightarrow> ?rs = []" by fact
        show "is_Done (detachFrom m h root w) \<longrightarrow>
           (\<forall>el\<in>set ?q. \<forall>i.
               slots w (nid el, symbol m) = Some i \<and> onDetach i \<noteq> None \<longrightarrow>
               Detach (ident i) (nid el) \<in> set ds)
         \<and> (\<forall>i. h (selector m) (nid root) \<and> slots w (nid root, symbol m) = Some i
               \<and> onDetach i \<noteq> None \<longrightarrow> ?rs = [Detach (ident i) (nid root)])"
          using full r4 by blast
      qed
    qed
  qed
qed

section \<open>The concrete inputs, evaluated\<close>

lemma panel_attached_eq:
  "panel_attached =
     \<lparr>slots = (\<lambda>k. None)
        ((2, 0) \<mapsto> \<lparr>onChange = Some Returns, onDetach = Some Returns, ident = 0\<rparr>,
         (1, 0) \<mapsto> \<lparr>onChange = Some Returns, onDetach = Some Returns, ident = 1\<rparr>),
      trace = [New 2, New 1], next_inst = 2, next_symbol = 0, observed = (\<lambda>s. Map.empty)\<rparr>"
  by (simp add: panel_attached_def attachTo_def matches_def querySelectorAll_def attach_def
      open_manager_simps empty_world_def panel_def button_def hooks_ok_def)

lemma panel_detached:
  "detachFrom open_manager (\<lambda>sel n. True) panel panel_attached =
     Done () (panel_attached\<lparr>trace := [New 2, New 1, Detach 1 1, Detach 0 2],
                slots := (\<lambda>k. None)\<rparr>)"
  by (simp add: panel_attached_eq detachFrom_def matches_def querySelectorAll_def detach_def
      open_manager_simps panel_def button_def fun_upd_twist)

lemma button_attachTo:
  "attachTo open_manager (\<lambda>sel n. True) button empty_world = Done () button_attached"
  by (simp add: button_attached_eq attachTo_def matches_def querySelectorAll_def attach_def
      open_manager_simps empty_world_def button_def hooks_ok_def)

lemma attachTo_trace_root:
  assumes "slots w (nid root, symbol m) = Some i"
    and "nid root \<notin> nid ` set (descendants root)"
  shows "slots (world_of (attachTo m h root w)) (nid root, symbol m) = Some i
    \<and> (\<exists>evs. trace (world_of (attachTo m h root w)) = trace w @ evs
          \<and> (\<forall>e\<in>set evs. event_node e \<noteq> nid root))"
proof -
  let ?q = "querySelectorAll h root (selector m)"
  have a: "attach m root w = Done False w" using assms(1) by (rule attach_present)
  have t: "attachTo m h root w = attach_each m ?q w"
    using a by (simp add: attachTo_def matches_def split: bool.splits)
  have s: "slots (world_of (attach_each m ?q w)) (nid root, symbol m) = Some i"
    using assms(1) by (rule attach_each_keeps)
  from attach_each_trace [of m ?q w] obtain evs where
    evs: "trace (world_of (attach_each m ?q w)) = trace w @ evs"
    "\<forall>e\<in>set evs. \<exists>el\<in>set ?q. e = New (nid el)" by blast
  have "\<forall>e\<in>set evs. event_node e \<noteq> nid root"
  proof
    fix e assume "e \<in> set evs"
    with evs(2) obtain el where el: "el \<in> set ?q" "e = New (nid el)" by blast
    from el(1) have "el \<in> set (descendants root)" by (simp add: querySelectorAll_def)
    then have "nid el \<in> nid ` set (descendants root)" by (rule imageI)
    with assms(2) have "nid el \<noteq> nid root" by (cases "nid el = nid root") simp_all
    then show "event_node e \<noteq> nid root" unfolding el(2) by simp
  qed
  with evs(1) s t show ?thesis by auto
qed

section \<open>What an attach pass can raise and touch\<close>





lemma attachTo_non_element:
  "kind root \<noteq> Element \<Longrightarrow>
   attachTo m h root w = attach_each m (querySelectorAll h root (selector m)) w"
  by (simp add: attachTo_def)




section \<open>When no user code throws\<close>





















section \<open>A registration and the calls after it\<close>










section \<open>Attribute records in the reducer\<close>

text \<open>
  Claim C1. For an attribute record on an element, the reducer does one of four things.
  If the element matches the selector and holds no instance of this manager, the
  directive is constructed and stored under the manager's key. If it matches and holds
  an instance, \<^verbatim>\<open>onChange(node, record)\<close> is called on the stored instance and nothing
  is constructed. If it does not match and holds an instance, \<^verbatim>\<open>onDetach\<close> is called
  and the stored instance erased. If it does not match and holds none, nothing happens.
  The hooks are optional calls (an absent hook is not called), and the cases are those
  where the constructor and the hook return. The theorem does not need the element to
  be in the tree.
\<close>

theorem attribute_record_dispatch:
  assumes "type mu = attributes" and "kind (target mu) = Element"
    and "el = target mu" and "k = (nid el, symbol m)"
  shows
    "(h (selector m) (nid el) \<and> slots w k = None \<and> directive m (nid el) = Some hk \<longrightarrow>
        observer_record m h mu w = Done ()
          (w\<lparr>trace := trace w @ [New (nid el)],
             slots := (slots w)(k \<mapsto>
               \<lparr>onChange = onChange hk, onDetach = onDetach hk, ident = next_inst w\<rparr>),
             next_inst := Suc (next_inst w)\<rparr>))
   \<and> (h (selector m) (nid el) \<and> slots w k = Some i \<and> onChange i \<noteq> Some Throws \<longrightarrow>
        observer_record m h mu w = Done ()
          (w\<lparr>trace := trace w @
             (if onChange i = None then [] else [Change (ident i) (nid el) mu])\<rparr>))
   \<and> (\<not> h (selector m) (nid el) \<and> slots w k = Some i \<and> onDetach i \<noteq> Some Throws \<longrightarrow>
        observer_record m h mu w = Done ()
          (w\<lparr>trace := trace w @ (if onDetach i = None then [] else [Detach (ident i) (nid el)]),
             slots := (slots w)(k := None)\<rparr>))
   \<and> (\<not> h (selector m) (nid el) \<and> slots w k = None \<longrightarrow>
        observer_record m h mu w = Done () w)"
  using assms
  by (auto simp add: observer_record_def matches_def update_def attach_absent attach_present
      detach_def split: option.splits outcome.splits)

theorem attribute_record_dispatch_witness:
  "observer_record open_manager (\<lambda>sel n. True) (attr_record button) empty_world =
     Done () button_attached
   \<and> observer_record open_manager (\<lambda>sel n. True) (attr_record button) button_attached =
     Done () (button_attached\<lparr>trace := [New 1, Change 0 1 (attr_record button)]\<rparr>)
   \<and> observer_record open_manager (\<lambda>sel n. False) (attr_record button) button_attached =
     Done () (button_attached\<lparr>trace := [New 1, Detach 0 1], slots := (\<lambda>k. None)\<rparr>)
   \<and> observer_record open_manager (\<lambda>sel n. False) (attr_record button) empty_world =
     Done () empty_world"
proof -
  let ?i = "\<lparr>onChange = Some Returns, onDetach = Some Returns, ident = 0\<rparr>"
  have a: "type (attr_record button) = attributes" "kind (target (attr_record button)) = Element"
    "button = target (attr_record button)" "(1, 0) = (nid button, symbol open_manager)"
    by (simp_all add: attr_record_def button_def open_manager_simps)
  have s0: "slots empty_world (1, 0) = None" by (simp add: empty_world_def)
  have s1: "slots button_attached (1, 0) = Some ?i" by (simp add: button_attached_eq)
  note t0 = attribute_record_dispatch [OF a, of "\<lambda>sel n. True" empty_world hooks_ok ?i]
  note t1 = attribute_record_dispatch [OF a, of "\<lambda>sel n. True" button_attached hooks_ok ?i]
  note t2 = attribute_record_dispatch [OF a, of "\<lambda>sel n. False" button_attached hooks_ok ?i]
  note t3 = attribute_record_dispatch [OF a, of "\<lambda>sel n. False" empty_world hooks_ok ?i]
  have c0: "observer_record open_manager (\<lambda>sel n. True) (attr_record button) empty_world =
     Done () button_attached"
    using t0 s0
    by (simp add: open_manager_simps button_attached_eq empty_world_def button_def hooks_ok_def)
  have c1: "observer_record open_manager (\<lambda>sel n. True) (attr_record button) button_attached =
     Done () (button_attached\<lparr>trace := [New 1, Change 0 1 (attr_record button)]\<rparr>)"
    using t1 s1 by (simp add: button_attached_eq button_def)
  have c2: "observer_record open_manager (\<lambda>sel n. False) (attr_record button) button_attached =
     Done () (button_attached\<lparr>trace := [New 1, Detach 0 1], slots := (\<lambda>k. None)\<rparr>)"
    using t2 s1 by (simp add: button_attached_eq button_def)
  have c3: "observer_record open_manager (\<lambda>sel n. False) (attr_record button) empty_world =
     Done () empty_world"
    using t3 s0 by simp
  show ?thesis using c0 c1 c2 c3 by simp
qed

section \<open>Where instances are stored\<close>




section \<open>Stopping the subscription\<close>




section \<open>A hook that throws\<close>




section \<open>The order of a teardown pass\<close>

text \<open>
  Claim C5. For a removed subtree root passed to \<open>detachFrom\<close> (a node of a tree:
  its identity is not that of one of its descendants), the calls the pass makes split
  into \<open>ds\<close> followed by \<open>rs\<close>: \<open>ds\<close> holds only \<^verbatim>\<open>onDetach\<close> calls for matching
  descendants found by the subtree query, \<open>rs\<close> only the call for the root. So every
  call for a descendant comes before the call for the root. When the pass returns,
  \<open>ds\<close> holds the call for every matching descendant that had an instance with an
  \<^verbatim>\<open>onDetach\<close> hook, and \<open>rs\<close> is the call for the root if the root matches and had
  such an instance.
\<close>

theorem detachFrom_descendants_first:
  assumes "nid root \<notin> nid ` set (descendants root)"
  shows "\<exists>ds rs. trace (world_of (detachFrom m h root w)) = trace w @ ds @ rs
      \<and> (\<forall>e\<in>set ds. event_node e \<in> nid ` set (querySelectorAll h root (selector m))
            \<and> event_node e \<noteq> nid root)
      \<and> (\<forall>e\<in>set rs. event_node e = nid root)
      \<and> (is_Done (detachFrom m h root w) \<longrightarrow>
           (\<forall>el\<in>set (querySelectorAll h root (selector m)). \<forall>i.
               slots w (nid el, symbol m) = Some i \<and> onDetach i \<noteq> None \<longrightarrow>
               Detach (ident i) (nid el) \<in> set ds)
         \<and> (\<forall>i. h (selector m) (nid root) \<and> slots w (nid root, symbol m) = Some i
               \<and> onDetach i \<noteq> None \<longrightarrow> rs = [Detach (ident i) (nid root)]))"
proof -
  from detachFrom_trace [OF assms, of m h w] obtain ds rs where
    "trace (world_of (detachFrom m h root w)) = trace w @ ds @ rs"
    "\<forall>e\<in>set ds. event_node e \<in> nid ` set (querySelectorAll h root (selector m))
            \<and> event_node e \<noteq> nid root"
    "\<forall>e\<in>set rs. event_node e = nid root"
    "is_Done (detachFrom m h root w) \<longrightarrow>
           (\<forall>el\<in>set (querySelectorAll h root (selector m)). \<forall>i.
               slots w (nid el, symbol m) = Some i \<and> onDetach i \<noteq> None \<longrightarrow>
               Detach (ident i) (nid el) \<in> set ds)
         \<and> (\<forall>i. h (selector m) (nid root) \<and> slots w (nid root, symbol m) = Some i
               \<and> onDetach i \<noteq> None \<longrightarrow> rs = [Detach (ident i) (nid root)])"
    by (elim exE conjE)
  then show ?thesis by (intro exI conjI)
qed

theorem detachFrom_descendants_first_witness:
  "nid panel \<notin> nid ` set (descendants panel)
   \<and> is_Done (detachFrom open_manager (\<lambda>sel n. True) panel panel_attached)
   \<and> trace (world_of (detachFrom open_manager (\<lambda>sel n. True) panel panel_attached))
       = trace panel_attached @ [Detach 1 1] @ [Detach 0 2]
   \<and> (\<exists>ds rs. trace (world_of (detachFrom open_manager (\<lambda>sel n. True) panel panel_attached))
          = trace panel_attached @ ds @ rs
        \<and> Detach 1 (nid button) \<in> set ds \<and> rs = [Detach 0 (nid panel)])"
proof -
  let ?h = "\<lambda>(sel::jsstring) (n::nat). True"
  let ?i1 = "\<lparr>onChange = Some Returns, onDetach = Some Returns, ident = 1\<rparr>"
  let ?i0 = "\<lparr>onChange = Some Returns, onDetach = Some Returns, ident = 0\<rparr>"
  have a: "nid panel \<notin> nid ` set (descendants panel)" by (simp add: panel_def button_def)
  have d: "is_Done (detachFrom open_manager ?h panel panel_attached)"
    by (simp add: panel_detached)
  have t: "trace (world_of (detachFrom open_manager ?h panel panel_attached))
       = trace panel_attached @ [Detach 1 1] @ [Detach 0 2]"
    unfolding panel_detached by (simp add: panel_attached_eq)
  have q: "button \<in> set (querySelectorAll ?h panel (selector open_manager))"
    by (simp add: querySelectorAll_def panel_def button_def)
  have s1: "slots panel_attached (nid button, symbol open_manager) = Some ?i1"
    by (simp add: panel_attached_eq button_def open_manager_simps)
  have s0: "slots panel_attached (nid panel, symbol open_manager) = Some ?i0"
    by (simp add: panel_attached_eq panel_def open_manager_simps)
  from detachFrom_descendants_first [OF a, of open_manager ?h panel_attached]
  obtain ds rs where r: "trace (world_of (detachFrom open_manager ?h panel panel_attached))
          = trace panel_attached @ ds @ rs"
    and full: "is_Done (detachFrom open_manager ?h panel panel_attached) \<longrightarrow>
           (\<forall>el\<in>set (querySelectorAll ?h panel (selector open_manager)). \<forall>i.
               slots panel_attached (nid el, symbol open_manager) = Some i \<and> onDetach i \<noteq> None \<longrightarrow>
               Detach (ident i) (nid el) \<in> set ds)
         \<and> (\<forall>i. ?h (selector open_manager) (nid panel)
               \<and> slots panel_attached (nid panel, symbol open_manager) = Some i
               \<and> onDetach i \<noteq> None \<longrightarrow> rs = [Detach (ident i) (nid panel)])"
    by (elim exE conjE)
  from full d q s1 have "Detach (ident ?i1) (nid button) \<in> set ds" by (elim impE conjE) auto
  then have e1: "Detach 1 (nid button) \<in> set ds" by simp
  from full d s0 have "rs = [Detach (ident ?i0) (nid panel)]" by (elim impE conjE) auto
  then have e0: "rs = [Detach 0 (nid panel)]" by simp
  from r e1 e0 have "\<exists>ds rs. trace (world_of (detachFrom open_manager ?h panel panel_attached))
          = trace panel_attached @ ds @ rs
        \<and> Detach 1 (nid button) \<in> set ds \<and> rs = [Detach 0 (nid panel)]" by blast
  with a d t show ?thesis by simp
qed

section \<open>Attaching twice\<close>

text \<open>
  Claim C6. Attaching is idempotent. On an element that already holds an instance of
  this manager, \<^verbatim>\<open>#attach\<close> reports "already present" (it returns false) and leaves
  the state as it is: no object is built and the constructor is not called. An attach
  pass that has returned, run again on the same root, returns with the state unchanged,
  so over the two passes every element has one instance and the constructor ran once
  for it. And an attach pass on a root that already holds an instance keeps that
  instance and makes no call for the root (the root being a node of a tree).
\<close>

theorem attach_is_idempotent:
  "(slots w (nid el, symbol m) = Some i \<longrightarrow> attach m el w = Done False w)
   \<and> (attachTo m h root w = Done () w1 \<longrightarrow> attachTo m h root w1 = Done () w1)
   \<and> (slots w (nid root, symbol m) = Some i \<and> nid root \<notin> nid ` set (descendants root) \<longrightarrow>
        slots (world_of (attachTo m h root w)) (nid root, symbol m) = Some i
        \<and> (\<exists>evs. trace (world_of (attachTo m h root w)) = trace w @ evs
              \<and> (\<forall>e\<in>set evs. event_node e \<noteq> nid root)))"
proof (intro conjI impI)
  assume "slots w (nid el, symbol m) = Some i"
  then show "attach m el w = Done False w" by (rule attach_present)
next
  assume "attachTo m h root w = Done () w1"
  then show "attachTo m h root w1 = Done () w1" by (rule attachTo_again)
next
  assume a: "slots w (nid root, symbol m) = Some i \<and> nid root \<notin> nid ` set (descendants root)"
  then show "slots (world_of (attachTo m h root w)) (nid root, symbol m) = Some i"
    using attachTo_trace_root [of w root m i h] by blast
  from a show "\<exists>evs. trace (world_of (attachTo m h root w)) = trace w @ evs
              \<and> (\<forall>e\<in>set evs. event_node e \<noteq> nid root)"
    using attachTo_trace_root [of w root m i h] by blast
qed

theorem attach_is_idempotent_witness:
  "slots button_attached (nid button, symbol open_manager)
      = Some \<lparr>onChange = Some Returns, onDetach = Some Returns, ident = 0\<rparr>
   \<and> attach open_manager button button_attached = Done False button_attached
   \<and> attachTo open_manager (\<lambda>sel n. True) button empty_world = Done () button_attached
   \<and> attachTo open_manager (\<lambda>sel n. True) button button_attached = Done () button_attached
   \<and> nid button \<notin> nid ` set (descendants button)
   \<and> trace button_attached = [New 1]"
proof -
  let ?i = "\<lparr>onChange = Some Returns, onDetach = Some Returns, ident = 0\<rparr>"
  have s: "slots button_attached (nid button, symbol open_manager) = Some ?i"
    by (simp add: button_attached_eq button_def open_manager_simps)
  have d: "nid button \<notin> nid ` set (descendants button)" by (simp add: button_def)
  have t: "trace button_attached = [New 1]" by (simp add: button_attached_eq)
  from attach_is_idempotent [where w = button_attached and el = button and m = open_manager
      and i = ?i] s
  have a: "attach open_manager button button_attached = Done False button_attached" by blast
  from attach_is_idempotent [where w = empty_world and m = open_manager
      and h = "\<lambda>sel n. True" and root = button and ?w1.0 = button_attached] button_attachTo
  have b: "attachTo open_manager (\<lambda>sel n. True) button button_attached = Done () button_attached"
    by blast
  from s a b button_attachTo d t show ?thesis by simp
qed

section \<open>Detaching twice\<close>

text \<open>
  Claim C7. Detaching is idempotent. On an element with no stored instance
  \<^verbatim>\<open>#detach\<close> is a no-op: \<^verbatim>\<open>onDetach\<close> is not called and the state is unchanged.
  A teardown pass that has returned, run again on the same root, returns with the state
  unchanged; the two passes together call \<^verbatim>\<open>onDetach\<close> for the root at most once.
  A teardown pass on a root with no stored instance makes no call for the root.
\<close>

theorem detach_is_idempotent:
  "(slots w (nid el, symbol m) = None \<longrightarrow> detach m el w = Done () w)
   \<and> (detachFrom m h root w = Done () w1 \<longrightarrow> detachFrom m h root w1 = Done () w1)
   \<and> (detachFrom m h root w = Done () w1 \<and> nid root \<notin> nid ` set (descendants root) \<longrightarrow>
        (\<exists>evs. trace (world_of (detachFrom m h root w1)) = trace w @ evs
           \<and> length (filter (\<lambda>e. event_node e = nid root) evs) \<le> 1))
   \<and> (slots w (nid root, symbol m) = None \<and> nid root \<notin> nid ` set (descendants root) \<longrightarrow>
        (\<exists>evs. trace (world_of (detachFrom m h root w)) = trace w @ evs
           \<and> (\<forall>e\<in>set evs. event_node e \<noteq> nid root)))"
proof (intro conjI impI)
  assume "slots w (nid el, symbol m) = None"
  then show "detach m el w = Done () w" by (rule detach_absent)
next
  assume "detachFrom m h root w = Done () w1"
  then show "detachFrom m h root w1 = Done () w1" by (rule detachFrom_again)
next
  assume a: "detachFrom m h root w = Done () w1 \<and> nid root \<notin> nid ` set (descendants root)"
  then have "detachFrom m h root w = Done () w1" by simp
  then have again: "detachFrom m h root w1 = Done () w1" by (rule detachFrom_again)
  from a have "nid root \<notin> nid ` set (descendants root)" by simp
  from detachFrom_trace [OF this, of m h w] obtain ds rs where
    t: "trace (world_of (detachFrom m h root w)) = trace w @ ds @ rs"
    and ds: "\<forall>e\<in>set ds. event_node e \<in> nid ` set (querySelectorAll h root (selector m))
            \<and> event_node e \<noteq> nid root"
    and rs: "length rs \<le> 1"
    by (elim exE conjE)
  from ds have "filter (\<lambda>e. event_node e = nid root) ds = []" by (simp add: filter_empty_conv)
  then have "length (filter (\<lambda>e. event_node e = nid root) (ds @ rs)) \<le> length rs" by simp
  with rs have "length (filter (\<lambda>e. event_node e = nid root) (ds @ rs)) \<le> 1" by simp
  moreover have "trace (world_of (detachFrom m h root w1)) = trace w @ (ds @ rs)"
    using again t a by simp
  ultimately show "\<exists>evs. trace (world_of (detachFrom m h root w1)) = trace w @ evs
           \<and> length (filter (\<lambda>e. event_node e = nid root) evs) \<le> 1" by blast
next
  assume a: "slots w (nid root, symbol m) = None \<and> nid root \<notin> nid ` set (descendants root)"
  then have "nid root \<notin> nid ` set (descendants root)" by simp
  from detachFrom_trace [OF this, of m h w] obtain ds rs where
    t: "trace (world_of (detachFrom m h root w)) = trace w @ ds @ rs"
    and ds: "\<forall>e\<in>set ds. event_node e \<in> nid ` set (querySelectorAll h root (selector m))
            \<and> event_node e \<noteq> nid root"
    and rs: "slots w (nid root, symbol m) = None \<longrightarrow> rs = []"
    by (elim exE conjE)
  from rs a have "rs = []" by simp
  with t ds have "trace (world_of (detachFrom m h root w)) = trace w @ ds
      \<and> (\<forall>e\<in>set ds. event_node e \<noteq> nid root)" by simp
  then show "\<exists>evs. trace (world_of (detachFrom m h root w)) = trace w @ evs
           \<and> (\<forall>e\<in>set evs. event_node e \<noteq> nid root)" by blast
qed

theorem detach_is_idempotent_witness:
  "slots empty_world (nid button, symbol open_manager) = None
   \<and> detach open_manager button empty_world = Done () empty_world
   \<and> detachFrom open_manager (\<lambda>sel n. True) panel panel_attached
       = Done () (panel_attached\<lparr>trace := [New 2, New 1, Detach 1 1, Detach 0 2],
                slots := (\<lambda>k. None)\<rparr>)
   \<and> detachFrom open_manager (\<lambda>sel n. True) panel
        (panel_attached\<lparr>trace := [New 2, New 1, Detach 1 1, Detach 0 2], slots := (\<lambda>k. None)\<rparr>)
       = Done () (panel_attached\<lparr>trace := [New 2, New 1, Detach 1 1, Detach 0 2],
                slots := (\<lambda>k. None)\<rparr>)
   \<and> nid panel \<notin> nid ` set (descendants panel)"
proof -
  let ?w1 = "panel_attached\<lparr>trace := [New 2, New 1, Detach 1 1, Detach 0 2],
                slots := (\<lambda>k. None)\<rparr>"
  have s: "slots empty_world (nid button, symbol open_manager) = None"
    by (simp add: empty_world_def)
  have d: "nid panel \<notin> nid ` set (descendants panel)" by (simp add: panel_def button_def)
  from detach_is_idempotent [where w = empty_world and el = button and m = open_manager] s
  have a: "detach open_manager button empty_world = Done () empty_world" by blast
  from detach_is_idempotent [where w = panel_attached and m = open_manager
      and h = "\<lambda>sel n. True" and root = panel and ?w1.0 = ?w1] panel_detached
  have b: "detachFrom open_manager (\<lambda>sel n. True) panel ?w1 = Done () ?w1" by blast
  from s a b panel_detached d show ?thesis by simp
qed

section \<open>The attribute names of a selector\<close>




section \<open>Two managers on one tree\<close>



section \<open>A root that is not an element\<close>



end
